theory Spec2Isabelle
  imports Main "HOL-Library.Sublist" "HOL-Library.Char_ord" "HOL-Library.List_Lexorder"
begin

section \<open>Strings\<close>

text \<open>
  The program is \<^verbatim>\<open>scripts/doc-generator.js\<close>. A JavaScript string is modelled as a
  \<^typ>\<open>string\<close>, one \<^typ>\<open>char\<close> per code unit, so this model covers the strings whose
  code units are all below 256 (Unicode's Basic Latin and Latin-1 Supplement blocks);
  the classifier is read over a wider alphabet further down.
  On these \<^verbatim>\<open>String.prototype.toLowerCase\<close> maps \<^verbatim>\<open>A\<close>..\<^verbatim>\<open>Z\<close> (65..90) and the
  Latin-1 capitals 192..222, the multiplication sign 215 apart, to the code unit 32
  above, and leaves every other code unit alone.
\<close>

definition isUpperCase :: "char \<Rightarrow> bool" where
  "isUpperCase c =
     (let n = (of_char c :: nat)
      in (65 \<le> n \<and> n \<le> 90) \<or> (192 \<le> n \<and> n \<le> 222 \<and> n \<noteq> 215))"

definition toLowerCase_char :: "char \<Rightarrow> char" where
  "toLowerCase_char c = (if isUpperCase c then char_of ((of_char c :: nat) + 32) else c)"

definition toLowerCase :: "string \<Rightarrow> string" where
  "toLowerCase s = map toLowerCase_char s"

text \<open>\<^verbatim>\<open>s.replace(/\\/g, '/')\<close>: every backslash (code unit 92) becomes a slash.\<close>

definition backslash :: char where
  "backslash = char_of (92 :: nat)"

definition replace_backslashes :: "string \<Rightarrow> string" where
  "replace_backslashes s = map (\<lambda>c. if c = backslash then CHR ''/'' else c) s"

text \<open>
  \<^verbatim>\<open>s.split('/')\<close>: the pieces between the separators; the empty string gives one empty
  piece, and the result is never the empty array.
\<close>

fun split :: "char \<Rightarrow> string \<Rightarrow> string list" where
  "split sep [] = [[]]"
| "split sep (c # cs) =
     (if c = sep then [] # split sep cs
      else (case split sep cs of piece # pieces \<Rightarrow> (c # piece) # pieces | [] \<Rightarrow> [[c]]))"

section \<open>Regular expressions\<close>

text \<open>
  The patterns of \<^verbatim>\<open>folderMappings\<close> use four constructs only: a literal character,
  \<^verbatim>\<open>.*\<close>, an optional character \<^verbatim>\<open>x?\<close> and the anchor \<^verbatim>\<open>$\<close>. None of them carries a flag,
  so \<^verbatim>\<open>.\<close> matches every code unit but the line terminators (line feed 10 and carriage
  return 13 below 256) and \<^verbatim>\<open>$\<close> matches at the end of the input only.
  \<^verbatim>\<open>RegExp.prototype.test\<close> answers whether the pattern matches at some position.
\<close>

datatype rx_item = Chr char | DotStar | Opt char | EndAnchor

type_synonym regex = "rx_item list"

definition isLineTerminator :: "char \<Rightarrow> bool" where
  "isLineTerminator c = (c = char_of (10 :: nat) \<or> c = char_of (13 :: nat))"

fun match_here :: "regex \<Rightarrow> string \<Rightarrow> bool" where
  "match_here [] s = True"
| "match_here (Chr c # r) [] = False"
| "match_here (Chr c # r) (x # xs) = (x = c \<and> match_here r xs)"
| "match_here (Opt c # r) [] = match_here r []"
| "match_here (Opt c # r) (x # xs) = ((x = c \<and> match_here r xs) \<or> match_here r (x # xs))"
| "match_here (EndAnchor # r) s = (s = [] \<and> match_here r s)"
| "match_here (DotStar # r) [] = match_here r []"
| "match_here (DotStar # r) (x # xs) =
     (match_here r (x # xs) \<or> (\<not> isLineTerminator x \<and> match_here (DotStar # r) xs))"

fun test :: "regex \<Rightarrow> string \<Rightarrow> bool" where
  "test r [] = match_here r []"
| "test r (x # xs) = (match_here r (x # xs) \<or> test r xs)"

definition lit :: "string \<Rightarrow> regex" where
  "lit s = map Chr s"

section \<open>The category classifier\<close>

text \<open>
  \<^verbatim>\<open>getDocumentationFolder(filePath)\<close>, lines 174 to 212. The nine first patterns are
  \<^verbatim>\<open>/\/<name>\//\<close>; the five last ones are \<^verbatim>\<open>/\/app\/.*<name>\.tsx?$/\<close>.
\<close>

definition segment_pattern :: "string \<Rightarrow> regex" where
  "segment_pattern name = lit (''/'' @ name @ ''/'')"

definition app_pattern :: "string \<Rightarrow> regex" where
  "app_pattern name = lit ''/app/'' @ [DotStar] @ lit (name @ ''.ts'') @ [Opt CHR ''x'', EndAnchor]"

definition folderMappings :: "(regex \<times> string) list" where
  "folderMappings =
     [(segment_pattern ''components'', ''components''),
      (segment_pattern ''api'', ''api''),
      (segment_pattern ''hooks'', ''hooks''),
      (segment_pattern ''utils'', ''utils''),
      (segment_pattern ''types'', ''types''),
      (segment_pattern ''lib'', ''lib''),
      (segment_pattern ''services'', ''services''),
      (segment_pattern ''middleware'', ''middleware''),
      (segment_pattern ''pages'', ''pages''),
      (app_pattern ''page'', ''pages''),
      (app_pattern ''layout'', ''layouts''),
      (app_pattern ''loading'', ''loading''),
      (app_pattern ''error'', ''error''),
      (app_pattern ''not-found'', ''error'')]"

definition normalizedPath :: "string \<Rightarrow> string" where
  "normalizedPath filePath = toLowerCase (replace_backslashes filePath)"

text \<open>The loop over \<^verbatim>\<open>folderMappings\<close> returns at the first pattern that matches.\<close>

fun first_match :: "(regex \<times> string) list \<Rightarrow> string \<Rightarrow> string option" where
  "first_match [] s = None"
| "first_match ((pattern, folder) # mappings) s =
     (if test pattern s then Some folder else first_match mappings s)"

definition pathParts :: "string \<Rightarrow> string list" where
  "pathParts filePath = split CHR ''/'' (normalizedPath filePath)"

definition getDocumentationFolder :: "string \<Rightarrow> string" where
  "getDocumentationFolder filePath =
     (case first_match folderMappings (normalizedPath filePath) of
        Some folder \<Rightarrow> folder
      | None \<Rightarrow>
          (if length (pathParts filePath) > 1
           then (let parentFolder = pathParts filePath ! (length (pathParts filePath) - 2)
                 in if parentFolder \<noteq> [] \<and> parentFolder \<noteq> ''src'' \<and> parentFolder \<noteq> ''app''
                    then parentFolder else ''general'')
           else ''general''))"

subsection \<open>Notions of the specification\<close>

text \<open>
  The segments of a path as it is given: the pieces between separators, a separator being
  a slash or a backslash. The names of the nine segment rules. The immediate parent
  directory name of a path as it is given: its last segment but one.
\<close>

fun segments :: "string \<Rightarrow> string list" where
  "segments [] = [[]]"
| "segments (c # cs) =
     (if c = CHR ''/'' \<or> c = backslash then [] # segments cs
      else (case segments cs of piece # pieces \<Rightarrow> (c # piece) # pieces | [] \<Rightarrow> [[c]]))"

definition segment_names :: "string list" where
  "segment_names = [''components'', ''api'', ''hooks'', ''utils'', ''types'', ''lib'',
     ''services'', ''middleware'', ''pages'']"

definition parentSegment :: "string \<Rightarrow> string option" where
  "parentSegment path =
     (if length (segments path) > 1 then Some (last (butlast (segments path))) else None)"

section \<open>The classifier over a wider alphabet\<close>

text \<open>
  A JavaScript string is a sequence of 16-bit code units, and the alphabet above has only
  those below 256. The wide alphabet adds three code units from beyond: U+03D2 (Greek
  upsilon with hook symbol), U+2102 (double-struck capital C) and U+211D (double-struck
  capital R). Each is an upper-case letter (Unicode general category Lu) for which
  Unicode defines no lower-case mapping, so that \<^verbatim>\<open>toLowerCase\<close> leaves it as it is; none
  is a line terminator. The functions below are \<^verbatim>\<open>getDocumentationFolder\<close> and what it
  uses, read over this alphabet, with the same patterns. Code units outside the wide
  alphabet are not covered.
\<close>

datatype code_unit = Latin1 char | U03D2 | U2102 | U211D

definition wide :: "string \<Rightarrow> code_unit list" where
  "wide s = map Latin1 s"





fun split_w :: "code_unit \<Rightarrow> code_unit list \<Rightarrow> code_unit list list" where
  "split_w sep [] = [[]]"
| "split_w sep (u # us) =
     (if u = sep then [] # split_w sep us
      else (case split_w sep us of piece # pieces \<Rightarrow> (u # piece) # pieces | [] \<Rightarrow> [[u]]))"






section \<open>The environment of the orchestrator\<close>

text \<open>
  Node's \<^verbatim>\<open>path\<close> module and the working directory of the process are not code of the
  repository: they are parameters of the model. \<open>resolve\<close> gives the file that a path
  names (a relative and an absolute path may name the same one) and \<open>ancestors\<close> the
  directories above a path, which a recursive \<^verbatim>\<open>mkdir\<close> creates with it.
\<close>

record path_module =
  cwd :: string
  join :: "string list \<Rightarrow> string"
  basename :: "string \<Rightarrow> string \<Rightarrow> string"
  extname :: "string \<Rightarrow> string"
  resolve :: "string \<Rightarrow> string"
  ancestors :: "string \<Rightarrow> string list"

text \<open>
  A thrown \<^verbatim>\<open>Error\<close> is a value carrying its message. The world holds the regular files
  with their content, the directories, and what the program cannot decide: whether the
  system refuses an operation on a path (\<open>io_fault\<close>, with the message of the error) and
  what the text-generation collaborator answers (\<open>claude\<close>, an error or the generated
  text; the collaborator is taken to answer every call). Both may change with time, which
  is the number of effects performed so far; every effect is appended to \<open>trace\<close>.
  Console output is not modelled.
\<close>

datatype exn = Error (message: string)

datatype io_op = Mkdir | ReadFile | WriteFile

datatype event =
  MkdirSync string | ReadFileSync string | CallClaude string | WriteFileSync string string

record world =
  files :: "string \<Rightarrow> string option"
  dirs :: "string set"
  io_fault :: "nat \<Rightarrow> io_op \<Rightarrow> string \<Rightarrow> string option"
  claude :: "nat \<Rightarrow> string \<Rightarrow> string \<Rightarrow> exn + string"
  trace :: "event list"

definition log_event :: "event \<Rightarrow> world \<Rightarrow> world" where
  "log_event ev w = w\<lparr>trace := trace w @ [ev]\<rparr>"

definition existsSync :: "path_module \<Rightarrow> world \<Rightarrow> string \<Rightarrow> bool" where
  "existsSync env w p = (files w (resolve env p) \<noteq> None \<or> resolve env p \<in> dirs w)"

text \<open>\<^verbatim>\<open>fs.mkdirSync(p, { recursive: true })\<close>: fails where a regular file is in the way.\<close>

definition mkdirSync :: "path_module \<Rightarrow> world \<Rightarrow> string \<Rightarrow> (exn + unit) \<times> world" where
  "mkdirSync env w p =
     (let created = map (resolve env) (p # ancestors env p)
      in case io_fault w (length (trace w)) Mkdir (resolve env p) of
           Some msg \<Rightarrow> (Inl (Error msg), log_event (MkdirSync p) w)
         | None \<Rightarrow>
             if \<exists>d\<in>set created. files w d \<noteq> None
             then (Inl (Error (''ENOTDIR: not a directory, mkdir '' @ p)), log_event (MkdirSync p) w)
             else (Inr (), log_event (MkdirSync p) (w\<lparr>dirs := dirs w \<union> set created\<rparr>)))"

definition readFileSync :: "path_module \<Rightarrow> world \<Rightarrow> string \<Rightarrow> (exn + string) \<times> world" where
  "readFileSync env w p =
     (case io_fault w (length (trace w)) ReadFile (resolve env p) of
        Some msg \<Rightarrow> (Inl (Error msg), log_event (ReadFileSync p) w)
      | None \<Rightarrow>
          (case files w (resolve env p) of
             None \<Rightarrow>
               (Inl (Error ((if resolve env p \<in> dirs w
                              then ''EISDIR: illegal operation on a directory, read ''
                              else ''ENOENT: no such file or directory, open '') @ p)),
                log_event (ReadFileSync p) w)
           | Some content \<Rightarrow> (Inr content, log_event (ReadFileSync p) w)))"

definition writeFileSync ::
  "path_module \<Rightarrow> world \<Rightarrow> string \<Rightarrow> string \<Rightarrow> (exn + unit) \<times> world" where
  "writeFileSync env w p data =
     (case io_fault w (length (trace w)) WriteFile (resolve env p) of
        Some msg \<Rightarrow> (Inl (Error msg), log_event (WriteFileSync p data) w)
      | None \<Rightarrow>
          if resolve env p \<in> dirs w
          then (Inl (Error (''EISDIR: illegal operation on a directory, open '' @ p)),
                log_event (WriteFileSync p data) w)
          else (Inr (), log_event (WriteFileSync p data)
                          (w\<lparr>files := (files w)(resolve env p \<mapsto> data)\<rparr>)))"

text \<open>
  \<^verbatim>\<open>callClaude(fileContent, filePath)\<close>, lines 158 to 169: the exchange with the external
  service, taken whole.
\<close>

definition callClaude :: "world \<Rightarrow> string \<Rightarrow> string \<Rightarrow> (exn + string) \<times> world" where
  "callClaude w fileContent filePath =
     (claude w (length (trace w)) fileContent filePath, log_event (CallClaude filePath) w)"

section \<open>The generation orchestrator\<close>

text \<open>
  \<^verbatim>\<open>documentFile(filePath, force)\<close>, lines 217 to 261. The result is \<open>Inl\<close> of the error
  thrown, or \<open>Inr\<close> of the object \<^verbatim>\<open>{ docPath, skipped }\<close> as a pair. The \<^verbatim>\<open>catch\<close> of the
  function logs and throws the same error again. The message of line 221 has the code
  unit 233 (e with acute accent) in it.
\<close>

definition docsDir :: "path_module \<Rightarrow> string \<Rightarrow> string" where
  "docsDir env filePath = join env [cwd env, ''docs'', getDocumentationFolder filePath]"

definition docPath_of :: "path_module \<Rightarrow> string \<Rightarrow> string" where
  "docPath_of env filePath =
     join env [docsDir env filePath, basename env filePath (extname env filePath) @ ''.md'']"

definition documentFile ::
  "path_module \<Rightarrow> string \<Rightarrow> bool \<Rightarrow> world \<Rightarrow> (exn + string \<times> bool) \<times> world" where
  "documentFile env filePath force w =
     (if \<not> existsSync env w filePath
      then (Inl (Error (''Fichier non trouv'' @ [char_of (233 :: nat)] @ '': '' @ filePath)), w)
      else
        (case (if \<not> existsSync env w (docsDir env filePath)
               then mkdirSync env w (docsDir env filePath) else (Inr (), w)) of
           (Inl e, w1) \<Rightarrow> (Inl e, w1)
         | (Inr _, w1) \<Rightarrow>
             if \<not> force \<and> existsSync env w1 (docPath_of env filePath)
             then (Inr (docPath_of env filePath, True), w1)
             else
               (case readFileSync env w1 filePath of
                  (Inl e, w2) \<Rightarrow> (Inl e, w2)
                | (Inr fileContent, w2) \<Rightarrow>
                    (case callClaude w2 fileContent filePath of
                       (Inl e, w3) \<Rightarrow> (Inl e, w3)
                     | (Inr documentation, w3) \<Rightarrow>
                         (case writeFileSync env w3 (docPath_of env filePath) documentation of
                            (Inl e, w4) \<Rightarrow> (Inl e, w4)
                          | (Inr _, w4) \<Rightarrow> (Inr (docPath_of env filePath, False), w4))))))"

text \<open>
  \<^verbatim>\<open>documentMultipleFiles(filePaths, force)\<close>, lines 340 to 357. A result object has the
  keys \<^verbatim>\<open>filePath\<close>, \<^verbatim>\<open>success\<close> and \<^verbatim>\<open>skipped\<close>, and either \<^verbatim>\<open>docPath\<close> or \<^verbatim>\<open>error\<close>; a key that
  the object lacks is \<open>None\<close>. The loop pushes one result at the end of \<^verbatim>\<open>results\<close>.
\<close>

record run_result =
  filePath :: string
  docPath :: "string option"
  error :: "string option"
  success :: bool
  skipped :: bool

definition result_of :: "string \<Rightarrow> exn + string \<times> bool \<Rightarrow> run_result" where
  "result_of fp r =
     (case r of
        Inr (dp, sk) \<Rightarrow>
          if sk then \<lparr>filePath = fp, docPath = Some dp, error = None, success = True, skipped = True\<rparr>
          else \<lparr>filePath = fp, docPath = Some dp, error = None, success = True, skipped = False\<rparr>
      | Inl e \<Rightarrow>
          \<lparr>filePath = fp, docPath = None, error = Some (message e), success = False, skipped = False\<rparr>)"

fun document_loop ::
  "path_module \<Rightarrow> bool \<Rightarrow> run_result list \<Rightarrow> string list \<Rightarrow> world \<Rightarrow> run_result list \<times> world"
  where
  "document_loop env force results [] w = (results, w)"
| "document_loop env force results (fp # rest) w =
     (case documentFile env fp force w of
        (r, w1) \<Rightarrow> document_loop env force (results @ [result_of fp r]) rest w1)"

definition documentMultipleFiles ::
  "path_module \<Rightarrow> string list \<Rightarrow> bool \<Rightarrow> world \<Rightarrow> run_result list \<times> world" where
  "documentMultipleFiles env filePaths force w = document_loop env force [] filePaths w"



definition failed :: "run_result list \<Rightarrow> run_result list" where
  "failed results = filter (\<lambda>r. \<not> success r) results"


section \<open>The index rebuilder\<close>

text \<open>
  \<^verbatim>\<open>generateDocumentationIndex()\<close>, lines 266 to 335, reads the tree under \<^verbatim>\<open>docs\<close>: the
  entries of \<^verbatim>\<open>docs\<close> by name, each a directory with the names that \<^verbatim>\<open>readdirSync\<close> lists
  in it or something else; \<open>None\<close> when \<^verbatim>\<open>docs\<close> does not exist. The model keeps what the
  function computes and puts into the text: for each section the category and its files,
  and the two numbers of the statistics block. A category is kept with the listing that
  \<^verbatim>\<open>readdirSync\<close> gives for it; \<^verbatim>\<open>sort()\<close> orders strings by code units.
\<close>

datatype entry = Other | Directory (listing: "string list")

type_synonym docs_tree = "(string \<times> entry) list"

record index_document =
  sections :: "(string \<times> string list) list"
  totalFiles :: nat
  categoriesCount :: nat

definition isDirectory :: "entry \<Rightarrow> bool" where
  "isDirectory e = (case e of Directory _ \<Rightarrow> True | Other \<Rightarrow> False)"

definition endsWith :: "string \<Rightarrow> string \<Rightarrow> bool" where
  "endsWith s e = suffix e s"

definition markdown_files :: "entry \<Rightarrow> string list" where
  "markdown_files e =
     (case e of Directory names \<Rightarrow> filter (\<lambda>file. endsWith file ''.md'') names | Other \<Rightarrow> [])"

definition generateDocumentationIndex :: "docs_tree option \<Rightarrow> index_document option" where
  "generateDocumentationIndex docs =
     (case docs of
        None \<Rightarrow> None
      | Some dirents \<Rightarrow>
          (let categories = sort_key fst (filter (\<lambda>dirent. isDirectory (snd dirent)) dirents)
           in Some
                \<lparr>sections =
                   concat (map (\<lambda>category.
                      (let files = sort (markdown_files (snd category))
                       in if length files > 0 then [(fst category, files)] else [])) categories),
                 totalFiles =
                   foldl (\<lambda>sum category. sum + length (markdown_files (snd category))) 0 categories,
                 categoriesCount = length categories\<rparr>))"

subsection \<open>Notions for the properties of the orchestrator\<close>

text \<open>
  A file is already documented in a world when the file, its documentation directory
  and its documentation file exist. A world grows into another one when every file and
  every directory of the first is still there in the second. The skip result of a file.
  The category directories of a tree under \<^verbatim>\<open>docs\<close>.
\<close>

definition already_documented :: "path_module \<Rightarrow> world \<Rightarrow> string \<Rightarrow> bool" where
  "already_documented env w fp =
     (existsSync env w fp \<and> existsSync env w (docsDir env fp) \<and> existsSync env w (docPath_of env fp))"

definition grows :: "world \<Rightarrow> world \<Rightarrow> bool" where
  "grows w w' = (\<forall>p. (files w p \<noteq> None \<longrightarrow> files w' p \<noteq> None) \<and> (p \<in> dirs w \<longrightarrow> p \<in> dirs w'))"

definition skip_result :: "path_module \<Rightarrow> string \<Rightarrow> run_result" where
  "skip_result env fp =
     \<lparr>filePath = fp, docPath = Some (docPath_of env fp), error = None, success = True, skipped = True\<rparr>"

definition directories :: "docs_tree \<Rightarrow> (string \<times> entry) list" where
  "directories dirents = filter (\<lambda>dirent. isDirectory (snd dirent)) dirents"

subsection \<open>An example environment\<close>

text \<open>
  A path module for plain slash-separated paths under the working directory \<^verbatim>\<open>/repo\<close>,
  and worlds over it, for the examples.
\<close>

definition example_join :: "string list \<Rightarrow> string" where
  "example_join parts = foldr (\<lambda>a b. if b = [] then a else a @ ''/'' @ b) parts []"

definition example_env :: path_module where
  "example_env =
     \<lparr>cwd = ''/repo'',
      join = example_join,
      basename = (\<lambda>p ext. let b = last (split CHR ''/'' p)
                           in if suffix ext b \<and> ext \<noteq> b then take (length b - length ext) b else b),
      extname = (\<lambda>p. let b = last (split CHR ''/'' p)
                      in if CHR ''.'' \<in> set (drop 1 b)
                         then CHR ''.'' # rev (takeWhile (\<lambda>c. c \<noteq> CHR ''.'') (rev b)) else []),
      resolve = (\<lambda>p. if take 1 p = ''/'' then p else ''/repo/'' @ p),
      ancestors = (\<lambda>p. map (\<lambda>n. example_join (take n (split CHR ''/'' p)))
                          [2..<length (split CHR ''/'' p)])\<rparr>"

definition example_world :: world where
  "example_world =
     \<lparr>files = [''/repo/src/utils/a.ts'' \<mapsto> ''export const a = 1'',
               ''/repo/src/hooks/useB.ts'' \<mapsto> ''export const useB = 2''],
      dirs = {''/repo'', ''/repo/src'', ''/repo/src/utils'', ''/repo/src/hooks''},
      io_fault = (\<lambda>t ioop p. None),
      claude = (\<lambda>t fileContent p. Inr (''# '' @ p)),
      trace = []\<rparr>"

text \<open>
  A world where the collaborator fails until time 3, a world that holds the
  documentation of a source file that is gone, a batch with a missing file, and a tree
  under \<^verbatim>\<open>docs\<close> with an empty category directory.
\<close>

definition flaky_world :: world where
  "flaky_world =
     example_world\<lparr>claude := (\<lambda>t fileContent p.
        if t < 3 then Inl (Error ''Erreur API: 529 Overloaded'') else Inr (''# '' @ p))\<rparr>"

definition stale_world :: world where
  "stale_world =
     \<lparr>files = [''/repo/docs/utils/a.md'' \<mapsto> ''# src/utils/a.ts''],
      dirs = {''/repo'', ''/repo/docs'', ''/repo/docs/utils''},
      io_fault = (\<lambda>t ioop p. None),
      claude = (\<lambda>t fileContent p. Inr (''# '' @ p)),
      trace = []\<rparr>"

definition example_files :: "string list" where
  "example_files = [''src/utils/a.ts'', ''src/hooks/useB.ts'']"

definition after_first_run :: world where
  "after_first_run = snd (documentMultipleFiles example_env example_files False example_world)"

definition example_batch :: "string list" where
  "example_batch = [''src/utils/a.ts'', ''src/missing.ts'', ''src/hooks/useB.ts'']"

definition missing_result :: run_result where
  "missing_result =
     \<lparr>filePath = ''src/missing.ts'', docPath = None,
      error = Some (''Fichier non trouv'' @ [char_of (233 :: nat)] @ '': src/missing.ts''),
      success = False, skipped = False\<rparr>"


definition example_docs :: docs_tree where
  "example_docs =
     [(''utils'', Directory [''b.md'', ''a.md'', ''notes.txt'']),
      (''hooks'', Directory []),
      (''README.md'', Other),
      (''api'', Directory [''users.md''])]"

section \<open>Facts about splitting\<close>

lemma split_not_Nil [simp]: "split sep s \<noteq> []"
  by (induction s) (auto split: list.splits)

lemma split_Cons:
  "split sep (c # cs) =
     (if c = sep then [] # split sep cs else (c # hd (split sep cs)) # tl (split sep cs))"
  by (cases "split sep cs") (use split_not_Nil in auto)

declare split.simps(2) [simp del]
declare split_Cons [simp]

lemma split_append_sep: "split sep (a @ sep # b) = split sep a @ split sep b"
  by (induction a) auto

lemma split_no_sep: "sep \<notin> set s \<Longrightarrow> split sep s = [s]"
  by (induction s) auto

lemma split_append_no_sep:
  "sep \<notin> set v \<Longrightarrow> split sep (u @ v) = butlast (split sep u) @ [last (split sep u) @ v]"
proof (induction u)
  case Nil
  then show ?case by (simp add: split_no_sep)
next
  case (Cons c u)
  show ?case
  proof (cases "split sep u")
    case Nil
    then show ?thesis using split_not_Nil by blast
  next
    case (Cons x xs)
    then show ?thesis using Cons.IH [OF Cons.prems] by (cases xs) auto
  qed
qed


lemma split_nth_decomp:
  "Suc i < length (split sep s) \<Longrightarrow>
   \<exists>a b. s = a @ split sep s ! i @ sep # b \<and> (if i = 0 then a = [] else a \<noteq> [] \<and> last a = sep)"
proof (induction s arbitrary: i)
  case Nil
  then show ?case by simp
next
  case (Cons c s)
  obtain x xs where S: "split sep s = x # xs"
    by (cases "split sep s") (use split_not_Nil in auto)
  show ?case
  proof (cases "c = sep")
    case True
    show ?thesis
    proof (cases i)
      case 0
      with True show ?thesis by simp
    next
      case (Suc j)
      with Cons.prems True have "Suc j < length (split sep s)" by simp
      from Cons.IH [OF this] obtain a b where
        ab: "s = a @ split sep s ! j @ sep # b" "if j = 0 then a = [] else a \<noteq> [] \<and> last a = sep"
        by blast
      have "c # s = (c # a) @ split sep (c # s) ! i @ sep # b"
        using ab(1) True Suc by simp
      moreover have "c # a \<noteq> [] \<and> last (c # a) = sep"
        using ab(2) True by (auto split: if_splits)
      ultimately show ?thesis using Suc by (metis nat.distinct(1))
    qed
  next
    case False
    show ?thesis
    proof (cases i)
      case 0
      with Cons.prems False S have "Suc 0 < length (split sep s)" by simp
      from Cons.IH [OF this] obtain b where "s = split sep s ! 0 @ sep # b" by auto
      then have "c # s = [] @ split sep (c # s) ! 0 @ sep # b"
        using False S by simp
      then show ?thesis using 0 by metis
    next
      case (Suc j)
      with Cons.prems False S have "Suc (Suc j) < length (split sep s)" by simp
      from Cons.IH [OF this] obtain a b where
        ab: "s = a @ split sep s ! Suc j @ sep # b" "a \<noteq> [] \<and> last a = sep"
        by auto
      have "c # s = (c # a) @ split sep (c # s) ! i @ sep # b"
        using ab(1) False Suc S by simp
      moreover have "c # a \<noteq> [] \<and> last (c # a) = sep"
        using ab(2) by auto
      ultimately show ?thesis using Suc by (metis nat.distinct(1))
    qed
  qed
qed

lemma inner_segment_iff:
  assumes "sep \<notin> set name"
  shows "(\<exists>a b. s = a @ sep # name @ sep # b) \<longleftrightarrow> name \<in> set (butlast (tl (split sep s)))"
proof
  assume "\<exists>a b. s = a @ sep # name @ sep # b"
  then obtain a b where s: "s = a @ sep # name @ sep # b" by blast
  have "split sep s = split sep a @ [name] @ split sep b"
    using assms s by (simp add: split_append_sep split_no_sep)
  then have "butlast (tl (split sep s)) = tl (split sep a) @ [name] @ butlast (split sep b)"
    by (simp add: butlast_append)
  then show "name \<in> set (butlast (tl (split sep s)))" by simp
next
  let ?segs = "split sep s"
  assume "name \<in> set (butlast (tl ?segs))"
  then obtain i where i: "i < length (butlast (tl ?segs))" "butlast (tl ?segs) ! i = name"
    by (auto simp: in_set_conv_nth)
  then have len: "Suc (Suc i) < length ?segs" by simp
  have "butlast (tl ?segs) ! i = ?segs ! Suc i"
    using i(1) by (simp add: nth_butlast nth_tl)
  with i have nth: "?segs ! Suc i = name" by simp
  from split_nth_decomp [OF len] obtain a b where
    "s = a @ ?segs ! Suc i @ sep # b" "a \<noteq> []" "last a = sep" by auto
  then have "s = butlast a @ sep # name @ sep # b"
    using nth by (metis append.assoc append_Cons append_Nil append_butlast_last_id)
  then show "\<exists>a b. s = a @ sep # name @ sep # b" by blast
qed

section \<open>Facts about matching\<close>

lemma match_here_lit: "match_here (lit s @ r) t \<longleftrightarrow> (\<exists>u. t = s @ u \<and> match_here r u)"
proof (induction s arbitrary: t)
  case Nil
  then show ?case by (simp add: lit_def)
next
  case (Cons c s)
  then show ?case by (cases t) (auto simp: lit_def)
qed

lemma test_iff: "test r t \<longleftrightarrow> (\<exists>a u. t = a @ u \<and> match_here r u)"
proof (induction t)
  case Nil
  then show ?case by simp
next
  case (Cons x t)
  show ?case
  proof
    assume "test r (x # t)"
    then consider "match_here r (x # t)" | "test r t" by auto
    then show "\<exists>a u. x # t = a @ u \<and> match_here r u"
    proof cases
      case 1
      then show ?thesis by (metis append_Nil)
    next
      case 2
      with Cons obtain a u where "t = a @ u" "match_here r u" by blast
      then show ?thesis by (metis append_Cons)
    qed
  next
    assume "\<exists>a u. x # t = a @ u \<and> match_here r u"
    then obtain a u where au: "x # t = a @ u" "match_here r u" by blast
    show "test r (x # t)"
    proof (cases a)
      case Nil
      with au have "match_here r (x # t)" by simp
      then show ?thesis by simp
    next
      case (Cons y ys)
      with au have "t = ys @ u" by simp
      with au(2) Cons.IH show ?thesis by auto
    qed
  qed
qed

lemma test_lit: "test (lit s) t \<longleftrightarrow> (\<exists>a b. t = a @ s @ b)"
proof -
  have "match_here (lit s @ []) u \<longleftrightarrow> (\<exists>b. u = s @ b)" for u
    unfolding match_here_lit by simp
  then show ?thesis
    unfolding test_iff by auto
qed

lemma test_segment_pattern:
  "test (segment_pattern name) t \<longleftrightarrow> (\<exists>a b. t = a @ CHR ''/'' # name @ CHR ''/'' # b)"
  unfolding segment_pattern_def test_lit by simp
lemma match_here_DotStar:
  "match_here (DotStar # r) t \<longleftrightarrow>
     (\<exists>x u. t = x @ u \<and> (\<forall>c\<in>set x. \<not> isLineTerminator c) \<and> match_here r u)"
proof (induction t)
  case Nil
  then show ?case by simp
next
  case (Cons y t)
  show ?case
  proof
    assume "match_here (DotStar # r) (y # t)"
    then consider "match_here r (y # t)"
      | "\<not> isLineTerminator y" "match_here (DotStar # r) t" by auto
    then show "\<exists>x u. y # t = x @ u \<and> (\<forall>c\<in>set x. \<not> isLineTerminator c) \<and> match_here r u"
    proof cases
      case 1
      then have "y # t = [] @ (y # t) \<and> (\<forall>c\<in>set []. \<not> isLineTerminator c) \<and> match_here r (y # t)"
        by simp
      then show ?thesis by blast
    next
      case 2
      with Cons obtain x u where "t = x @ u" "\<forall>c\<in>set x. \<not> isLineTerminator c" "match_here r u"
        by blast
      with 2(1) have "y # t = (y # x) @ u \<and> (\<forall>c\<in>set (y # x). \<not> isLineTerminator c) \<and> match_here r u"
        by simp
      then show ?thesis by blast
    qed
  next
    assume "\<exists>x u. y # t = x @ u \<and> (\<forall>c\<in>set x. \<not> isLineTerminator c) \<and> match_here r u"
    then obtain x u where xu: "y # t = x @ u" "\<forall>c\<in>set x. \<not> isLineTerminator c" "match_here r u"
      by blast
    show "match_here (DotStar # r) (y # t)"
    proof (cases x)
      case Nil
      with xu have "match_here r (y # t)" by simp
      then show ?thesis by simp
    next
      case (Cons z zs)
      with xu have "t = zs @ u" "\<forall>c\<in>set zs. \<not> isLineTerminator c" "\<not> isLineTerminator y" by auto
      with xu(3) Cons.IH show ?thesis by auto
    qed
  qed
qed

lemma match_here_Opt_End: "match_here [Opt c, EndAnchor] t \<longleftrightarrow> t = [] \<or> t = [c]"
  by (cases t) auto

lemma match_here_shape:
  "match_here (lit p @ [DotStar] @ lit q @ [Opt k, EndAnchor]) v \<longleftrightarrow>
     (\<exists>x e. v = p @ x @ q @ e \<and> (\<forall>c\<in>set x. \<not> isLineTerminator c) \<and> (e = [] \<or> e = [k]))"
proof -
  have tail: "match_here (lit q @ [Opt k, EndAnchor]) u \<longleftrightarrow> (\<exists>e. u = q @ e \<and> (e = [] \<or> e = [k]))" for u
    unfolding match_here_lit match_here_Opt_End by blast
  have mid: "match_here (DotStar # lit q @ [Opt k, EndAnchor]) w \<longleftrightarrow>
      (\<exists>x e. w = x @ q @ e \<and> (\<forall>c\<in>set x. \<not> isLineTerminator c) \<and> (e = [] \<or> e = [k]))" for w
    unfolding match_here_DotStar tail by blast
  have "match_here (lit p @ (DotStar # lit q @ [Opt k, EndAnchor])) v \<longleftrightarrow>
      (\<exists>w. v = p @ w \<and> match_here (DotStar # lit q @ [Opt k, EndAnchor]) w)"
    by (rule match_here_lit)
  then show ?thesis unfolding mid by auto
qed

lemma test_app_pattern:
  "test (app_pattern name) t \<longleftrightarrow>
     (\<exists>a x e. t = a @ ''/app/'' @ x @ (name @ ''.ts'') @ e
        \<and> (\<forall>c\<in>set x. \<not> isLineTerminator c) \<and> (e = [] \<or> e = ''x''))"
  unfolding test_iff app_pattern_def match_here_shape by blast

section \<open>Facts about normalisation\<close>

lemma of_char_toLowerCase_char:
  "(of_char (toLowerCase_char c) :: nat) = (if isUpperCase c then of_char c + 32 else of_char c)"
proof (cases "isUpperCase c")
  case True
  then have "(of_char c :: nat) + 32 < 256"
    by (auto simp: isUpperCase_def Let_def)
  with True show ?thesis by (simp add: toLowerCase_char_def)
next
  case False
  then show ?thesis by (simp add: toLowerCase_char_def)
qed


lemma of_char_slash: "(of_char CHR ''/'' :: nat) = 47"
  by simp

lemma toLowerCase_char_eq_slash: "toLowerCase_char c = CHR ''/'' \<longleftrightarrow> c = CHR ''/''"
proof -
  have "toLowerCase_char c = CHR ''/'' \<longleftrightarrow> (of_char (toLowerCase_char c) :: nat) = of_char CHR ''/''"
    by (simp only: of_char_eq_iff)
  also have "\<dots> \<longleftrightarrow> (of_char c :: nat) = 47"
    unfolding of_char_toLowerCase_char of_char_slash by (auto simp: isUpperCase_def Let_def)
  also have "\<dots> \<longleftrightarrow> (of_char c :: nat) = of_char CHR ''/''"
    by (simp only: of_char_slash)
  also have "\<dots> \<longleftrightarrow> c = CHR ''/''"
    by (simp only: of_char_eq_iff)
  finally show ?thesis .
qed

lemma isLineTerminator_iff: "isLineTerminator c \<longleftrightarrow> (of_char c :: nat) = 10 \<or> (of_char c :: nat) = 13"
proof -
  have "c = char_of (n :: nat) \<longleftrightarrow> (of_char c :: nat) = n" if "n < 256" for n
    using that by (metis char_of_char of_char_of mod_less)
  then show ?thesis by (simp add: isLineTerminator_def)
qed

lemma isLineTerminator_toLowerCase_char: "isLineTerminator (toLowerCase_char c) \<longleftrightarrow> isLineTerminator c"
  unfolding isLineTerminator_iff of_char_toLowerCase_char by (auto simp: isUpperCase_def Let_def)

lemma normalize_char_eq_slash:
  "toLowerCase_char (if c = backslash then CHR ''/'' else c) = CHR ''/'' \<longleftrightarrow> c = CHR ''/'' \<or> c = backslash"
  by (simp add: toLowerCase_char_eq_slash)

lemma segments_not_Nil [simp]: "segments s \<noteq> []"
  by (induction s) (auto split: list.splits)

lemma segments_Cons:
  "segments (c # cs) =
     (if c = CHR ''/'' \<or> c = backslash then [] # segments cs
      else (c # hd (segments cs)) # tl (segments cs))"
  by (cases "segments cs") (use segments_not_Nil in auto)

declare segments.simps(2) [simp del]
declare segments_Cons [simp]

lemma split_normalizedPath: "pathParts path = map toLowerCase (segments path)"
proof -
  let ?f = "\<lambda>c. toLowerCase_char (if c = backslash then CHR ''/'' else c)"
  have slash: "?f CHR ''/'' = CHR ''/''" "?f backslash = CHR ''/''"
    by (simp_all add: toLowerCase_char_eq_slash)
  have "split CHR ''/'' (map ?f s) = map (map toLowerCase_char) (segments s)" for s
  proof (induction s)
    case Nil
    then show ?case by simp
  next
    case (Cons c s)
    show ?case
    proof (cases "c = CHR ''/'' \<or> c = backslash")
      case True
      then have "?f c = CHR ''/''" using slash by auto
      with True Cons show ?thesis by simp
    next
      case False
      then have ne: "?f c \<noteq> CHR ''/''" using normalize_char_eq_slash by blast
      have "?f c = toLowerCase_char c" using False by simp
      with ne False Cons show ?thesis
        by (simp add: hd_map map_tl del: split: if_splits)
    qed
  qed
  then show ?thesis
    by (simp add: pathParts_def normalizedPath_def toLowerCase_def replace_backslashes_def comp_def)
qed

section \<open>Classification by segment\<close>

lemma inner_pathParts_iff:
  assumes "CHR ''/'' \<notin> set name"
  shows "test (segment_pattern name) (normalizedPath p) \<longleftrightarrow> name \<in> set (butlast (tl (pathParts p)))"
  unfolding test_segment_pattern pathParts_def using inner_segment_iff [OF assms] .

lemma first_match_components:
  "test (segment_pattern ''components'') s \<Longrightarrow> first_match folderMappings s = Some ''components''"
  by (simp add: folderMappings_def)

text \<open>
  Claim C1, as amended. If a segment of the given path is \<^verbatim>\<open>components\<close> in any casing,
  with a separator (slash or backslash) before it and after it, so that it is neither the
  first nor the last segment, then \<^verbatim>\<open>getDocumentationFolder\<close> returns \<^verbatim>\<open>components\<close>.
  The pattern \<^verbatim>\<open>/\/components\//\<close> asks for both slashes: a leading \<^verbatim>\<open>components\<close> segment
  of a relative path is not seen by it, nor is a final component of that name, and the
  counterexample shows the claim without this condition to fail.
\<close>

theorem components_segment:
  assumes "seg \<in> set (butlast (tl (segments path)))"
    and "toLowerCase seg = ''components''"
  shows "getDocumentationFolder path = ''components''"
proof -
  have "butlast (tl (pathParts path)) = map toLowerCase (butlast (tl (segments path)))"
    by (simp add: split_normalizedPath map_butlast map_tl)
  with assms have "''components'' \<in> set (butlast (tl (pathParts path)))"
    by force
  then have "test (segment_pattern ''components'') (normalizedPath path)"
    by (subst inner_pathParts_iff) simp_all
  then show ?thesis
    by (simp add: getDocumentationFolder_def first_match_components)
qed

theorem components_segment_witness:
  "getDocumentationFolder (''SRC'' @ [backslash] @ ''Components'' @ [backslash] @ ''Card.tsx'') = ''components''"
proof -
  have 1: "''Components'' \<in> set (butlast (tl (segments (''SRC'' @ [backslash] @ ''Components'' @ [backslash] @ ''Card.tsx''))))"
    by code_simp
  have 2: "toLowerCase ''Components'' = ''components''"
    by code_simp
  show ?thesis using components_segment [OF 1 2] .
qed

theorem components_segment_counterexample:
  "''components'' \<in> set (segments ''components/sub/Button.tsx'')
   \<and> getDocumentationFolder ''components/sub/Button.tsx'' = ''sub''
   \<and> ''components'' \<in> set (segments ''src/components'')
   \<and> getDocumentationFolder ''src/components'' = ''general''"
  by code_simp

section \<open>The fallback\<close>

lemma split_last_sep: "sep \<notin> set b \<Longrightarrow> split sep (d @ sep # b) = split sep d @ [b]"
  by (simp add: split_append_sep split_no_sep)

lemma last_split_suffix: "\<exists>b. s = b @ last (split sep s)"
proof (cases "sep \<in> set s")
  case True
  then obtain d b where "s = d @ sep # b" "sep \<notin> set b"
    by (meson split_list_last)
  then have "s = (d @ [sep]) @ last (split sep s)"
    by (simp add: split_last_sep)
  then show ?thesis by blast
next
  case False
  then have "s = [] @ last (split sep s)" by (simp add: split_no_sep)
  then show ?thesis by blast
qed

lemma first_match_None_iff:
  "first_match mappings s = None \<longleftrightarrow> (\<forall>(pattern, folder)\<in>set mappings. \<not> test pattern s)"
  by (induction mappings s rule: first_match.induct) auto


lemma last_butlast_nth:
  assumes "length xs > 1"
  shows "last (butlast xs) = xs ! (length xs - 2)"
proof -
  have len: "length (butlast xs) = length xs - 1" by simp
  with assms have "butlast xs \<noteq> []" by (metis length_0_conv less_numeral_extra(3) zero_less_diff)
  then have "last (butlast xs) = butlast xs ! (length (butlast xs) - 1)"
    by (rule last_conv_nth)
  also have "\<dots> = xs ! (length (butlast xs) - 1)"
    using assms by (intro nth_butlast) simp
  also have "length (butlast xs) - 1 = length xs - 2"
    by simp
  finally show ?thesis .
qed

text \<open>
  Claim C6, as amended. When no pattern of \<^verbatim>\<open>folderMappings\<close> matches: if the path as it
  is given has a parent directory segment (the separators being slashes and
  backslashes) whose name is not empty and, in lower case, is neither \<^verbatim>\<open>src\<close> nor
  \<^verbatim>\<open>app\<close>, then \<^verbatim>\<open>getDocumentationFolder\<close> returns that name in lower case; in every
  other case it returns \<^verbatim>\<open>general\<close>. The counterexample shows the function returning
  \<^verbatim>\<open>weird\<close> for the parent \<^verbatim>\<open>Weird\<close>, and \<^verbatim>\<open>general\<close> for the parent \<^verbatim>\<open>Src\<close>.
\<close>

theorem fallback_parent:
  assumes "\<forall>(pattern, folder)\<in>set folderMappings. \<not> test pattern (normalizedPath path)"
  shows "getDocumentationFolder path =
     (case parentSegment path of
        None \<Rightarrow> ''general''
      | Some parent \<Rightarrow>
          if parent = [] \<or> toLowerCase parent = ''src'' \<or> toLowerCase parent = ''app''
          then ''general'' else toLowerCase parent)"
proof -
  have none: "first_match folderMappings (normalizedPath path) = None"
    using assms by (simp only: first_match_None_iff)
  show ?thesis
  proof (cases "length (segments path) > 1")
    case True
    then have "pathParts path ! (length (pathParts path) - 2)
        = toLowerCase (last (butlast (segments path)))"
      by (simp add: split_normalizedPath last_butlast_nth)
    moreover have "toLowerCase parent = [] \<longleftrightarrow> parent = []" for parent
      by (simp add: toLowerCase_def)
    ultimately show ?thesis
      using True none
      by (simp add: getDocumentationFolder_def parentSegment_def Let_def split_normalizedPath)
  next
    case False
    then show ?thesis
      using none by (simp add: getDocumentationFolder_def parentSegment_def split_normalizedPath)
  qed
qed

theorem fallback_parent_witness:
  "list_all (\<lambda>(pattern, folder).
       \<not> test pattern (normalizedPath (''src'' @ [backslash] @ ''Weird'' @ [backslash] @ ''Thing.js'')))
     folderMappings
   \<and> parentSegment (''src'' @ [backslash] @ ''Weird'' @ [backslash] @ ''Thing.js'') = Some ''Weird''
   \<and> toLowerCase ''Weird'' = ''weird''
   \<and> getDocumentationFolder (''src'' @ [backslash] @ ''Weird'' @ [backslash] @ ''Thing.js'') = ''weird''"
proof -
  have 1: "\<forall>(pattern, folder)\<in>set folderMappings.
      \<not> test pattern (normalizedPath (''src'' @ [backslash] @ ''Weird'' @ [backslash] @ ''Thing.js''))"
    by code_simp
  have 2: "parentSegment (''src'' @ [backslash] @ ''Weird'' @ [backslash] @ ''Thing.js'') = Some ''Weird''"
    by code_simp
  have 3: "toLowerCase ''Weird'' = ''weird''"
    by code_simp
  show ?thesis using fallback_parent [OF 1] 1 2 3 unfolding list_all_iff by simp
qed

theorem fallback_parent_counterexample:
  "first_match folderMappings (normalizedPath ''src/Weird/Thing.js'') = None
   \<and> parentSegment ''src/Weird/Thing.js'' = Some ''Weird''
   \<and> getDocumentationFolder ''src/Weird/Thing.js'' = ''weird''
   \<and> first_match folderMappings (normalizedPath ''proj/Src/main.js'') = None
   \<and> parentSegment ''proj/Src/main.js'' = Some ''Src''
   \<and> getDocumentationFolder ''proj/Src/main.js'' = ''general''"
  by code_simp

section \<open>The rule of page files\<close>

lemma normalizedPath_chars:
  "c \<in> set (normalizedPath path) \<Longrightarrow> \<exists>d\<in>set path. c = toLowerCase_char (if d = backslash then CHR ''/'' else d)"
  by (auto simp: normalizedPath_def toLowerCase_def replace_backslashes_def)

lemma isLineTerminator_slash: "\<not> isLineTerminator CHR ''/''"
  by (simp add: isLineTerminator_iff)

lemma normalizedPath_no_LT:
  assumes "\<forall>c\<in>set path. \<not> isLineTerminator c"
  shows "\<forall>c\<in>set (normalizedPath path). \<not> isLineTerminator c"
proof
  fix c assume "c \<in> set (normalizedPath path)"
  then obtain d where d: "d \<in> set path" "c = toLowerCase_char (if d = backslash then CHR ''/'' else d)"
    using normalizedPath_chars by blast
  show "\<not> isLineTerminator c"
    using d assms by (auto simp: isLineTerminator_toLowerCase_char isLineTerminator_slash)
qed

lemma app_page_matches:
  assumes last: "last (pathParts path) = name @ ''.ts'' @ e" and e: "e = [] \<or> e = ''x''"
    and app: "''app'' \<in> set (butlast (tl (pathParts path)))"
    and noLT: "\<forall>c\<in>set path. \<not> isLineTerminator c"
  shows "test (app_pattern name) (normalizedPath path)"
proof -
  let ?s = "normalizedPath path"
  have "CHR ''/'' \<notin> set ''app''" by simp
  from inner_segment_iff [OF this, of ?s] app obtain a b where ab: "?s = a @ CHR ''/'' # ''app'' @ CHR ''/'' # b"
    unfolding pathParts_def by blast
  then have "?s = (a @ ''/app'') @ CHR ''/'' # b" by simp
  then have "split CHR ''/'' ?s = split CHR ''/'' (a @ ''/app'') @ split CHR ''/'' b"
    by (simp only: split_append_sep)
  then have "last (pathParts path) = last (split CHR ''/'' b)"
    by (simp add: pathParts_def)
  moreover obtain x where x: "b = x @ last (split CHR ''/'' b)"
    using last_split_suffix by blast
  ultimately have b: "b = x @ name @ ''.ts'' @ e" using last by simp
  have "set x \<subseteq> set ?s" using ab b by auto
  then have "\<forall>c\<in>set x. \<not> isLineTerminator c"
    using normalizedPath_no_LT [OF noLT] by blast
  moreover have "?s = a @ ''/app/'' @ x @ (name @ ''.ts'') @ e" using ab b by simp
  ultimately show ?thesis using e unfolding test_app_pattern by blast
qed

lemma app_pattern_only:
  assumes "test (app_pattern name) (normalizedPath path)" and "CHR ''/'' \<notin> set name"
  shows "\<exists>x e. last (pathParts path) = x @ name @ ''.ts'' @ e \<and> (e = [] \<or> e = ''x'')"
    and "''app'' \<in> set (butlast (tl (pathParts path)))"
proof -
  let ?s = "normalizedPath path"
  from assms(1) obtain a x e where
    s: "?s = a @ ''/app/'' @ x @ (name @ ''.ts'') @ e" and e: "e = [] \<or> e = ''x''"
    unfolding test_app_pattern by blast
  have "CHR ''/'' \<notin> set ''app''" by simp
  from inner_segment_iff [OF this, of ?s] s
  show "''app'' \<in> set (butlast (tl (pathParts path)))"
    unfolding pathParts_def by (metis append_Cons append_Nil)
  have nosep: "CHR ''/'' \<notin> set ((name @ ''.ts'') @ e)" using assms(2) e by auto
  have "?s = (a @ ''/app'') @ CHR ''/'' # (x @ (name @ ''.ts'') @ e)" using s by simp
  then have "split CHR ''/'' ?s = split CHR ''/'' (a @ ''/app'') @ split CHR ''/'' (x @ (name @ ''.ts'') @ e)"
    by (simp only: split_append_sep)
  then have "last (pathParts path) = last (split CHR ''/'' (x @ (name @ ''.ts'') @ e))"
    by (simp add: pathParts_def)
  also have "\<dots> = last (split CHR ''/'' x) @ (name @ ''.ts'') @ e"
    using split_append_no_sep [OF nosep, of x] by simp
  finally show "\<exists>x e. last (pathParts path) = x @ name @ ''.ts'' @ e \<and> (e = [] \<or> e = ''x'')"
    using e by auto
qed

lemma first_match_app_page:
  assumes "\<forall>name\<in>set segment_names. \<not> test (segment_pattern name) s"
    and "test (app_pattern ''page'') s"
  shows "first_match folderMappings s = Some ''pages''"
  using assms by (simp add: folderMappings_def segment_names_def)

text \<open>
  Claim C2, as amended. First: if the final component of the normalised path is
  \<^verbatim>\<open>page.ts\<close> or \<^verbatim>\<open>page.tsx\<close>, an \<^verbatim>\<open>app\<close> segment stands before it with a slash on
  both sides, none of the nine segment rules applies (no segment with a slash on both
  sides bears one of their names) and the path has no line break in it, then
  \<^verbatim>\<open>getDocumentationFolder\<close> returns \<^verbatim>\<open>pages\<close>. Second: the pattern of the rule,
  \<^verbatim>\<open>/\/app\/.*page\.tsx?$/\<close>, matches only paths whose final component ends with
  \<^verbatim>\<open>page.ts\<close> or \<^verbatim>\<open>page.tsx\<close> and that have such an \<^verbatim>\<open>app\<close> segment.
  The counterexample shows a page file under \<^verbatim>\<open>app/api\<close> classified \<^verbatim>\<open>api\<close> by the
  earlier rule, the rule classifying \<^verbatim>\<open>homepage.tsx\<close>, and a page file classified by the
  fallback when \<^verbatim>\<open>app\<close> is the first segment or a line feed stands in a directory name.
\<close>

theorem app_page_rule:
  "(last (pathParts path) \<in> {''page.ts'', ''page.tsx''}
      \<and> ''app'' \<in> set (butlast (tl (pathParts path)))
      \<and> (\<forall>name\<in>set segment_names. name \<notin> set (butlast (tl (pathParts path))))
      \<and> (\<forall>c\<in>set path. \<not> isLineTerminator c)
     \<longrightarrow> getDocumentationFolder path = ''pages'')
   \<and> (test (app_pattern ''page'') (normalizedPath path)
     \<longrightarrow> (suffix ''page.ts'' (last (pathParts path))
            \<or> suffix ''page.tsx'' (last (pathParts path)))
          \<and> ''app'' \<in> set (butlast (tl (pathParts path))))"
proof (intro conjI impI)
  assume h: "last (pathParts path) \<in> {''page.ts'', ''page.tsx''}
      \<and> ''app'' \<in> set (butlast (tl (pathParts path)))
      \<and> (\<forall>name\<in>set segment_names. name \<notin> set (butlast (tl (pathParts path))))
      \<and> (\<forall>c\<in>set path. \<not> isLineTerminator c)"
  then obtain e where "last (pathParts path) = ''page'' @ ''.ts'' @ e" "e = [] \<or> e = ''x''"
    by auto
  with h have page: "test (app_pattern ''page'') (normalizedPath path)"
    using app_page_matches by blast
  have "\<forall>name\<in>set segment_names. CHR ''/'' \<notin> set name"
    by (simp add: segment_names_def)
  with h have "\<forall>name\<in>set segment_names. \<not> test (segment_pattern name) (normalizedPath path)"
    using inner_pathParts_iff by blast
  with page show "getDocumentationFolder path = ''pages''"
    by (simp add: getDocumentationFolder_def first_match_app_page)
next
  assume t: "test (app_pattern ''page'') (normalizedPath path)"
  have "CHR ''/'' \<notin> set ''page''" by simp
  from app_pattern_only(1) [OF t this] obtain x e where
    "last (pathParts path) = x @ ''page'' @ ''.ts'' @ e" "e = [] \<or> e = ''x''" by blast
  then show "suffix ''page.ts'' (last (pathParts path))
            \<or> suffix ''page.tsx'' (last (pathParts path))"
    by (auto simp: suffix_def)
next
  assume t: "test (app_pattern ''page'') (normalizedPath path)"
  have "CHR ''/'' \<notin> set ''page''" by simp
  from app_pattern_only(2) [OF t this]
  show "''app'' \<in> set (butlast (tl (pathParts path)))" .
qed

theorem app_page_rule_witness:
  "last (pathParts ''src/App/dashboard/Page.tsx'') \<in> {''page.ts'', ''page.tsx''}
   \<and> ''app'' \<in> set (butlast (tl (pathParts ''src/App/dashboard/Page.tsx'')))
   \<and> list_all (\<lambda>name. name \<notin> set (butlast (tl (pathParts ''src/App/dashboard/Page.tsx''))))
        segment_names
   \<and> list_all (\<lambda>c. \<not> isLineTerminator c) ''src/App/dashboard/Page.tsx''
   \<and> test (app_pattern ''page'') (normalizedPath ''src/App/dashboard/Page.tsx'')
   \<and> getDocumentationFolder ''src/App/dashboard/Page.tsx'' = ''pages''
   \<and> suffix ''page.tsx'' (last (pathParts ''src/App/dashboard/Page.tsx''))"
proof -
  have 1: "last (pathParts ''src/App/dashboard/Page.tsx'') \<in> {''page.ts'', ''page.tsx''}
   \<and> ''app'' \<in> set (butlast (tl (pathParts ''src/App/dashboard/Page.tsx'')))
   \<and> (\<forall>name\<in>set segment_names. name \<notin> set (butlast (tl (pathParts ''src/App/dashboard/Page.tsx''))))
   \<and> (\<forall>c\<in>set ''src/App/dashboard/Page.tsx''. \<not> isLineTerminator c)"
    by code_simp
  have 2: "test (app_pattern ''page'') (normalizedPath ''src/App/dashboard/Page.tsx'')"
    by code_simp
  have 3: "suffix ''page.tsx'' (last (pathParts ''src/App/dashboard/Page.tsx''))"
    by code_simp
  show ?thesis
    using app_page_rule [of "''src/App/dashboard/Page.tsx''"] 1 2 3
    unfolding list_all_iff by blast
qed

theorem app_page_rule_counterexample:
  "last (segments ''src/app/api/page.tsx'') = ''page.tsx''
   \<and> ''app'' \<in> set (butlast (segments ''src/app/api/page.tsx''))
   \<and> getDocumentationFolder ''src/app/api/page.tsx'' = ''api''
   \<and> last (segments ''src/app/homepage.tsx'') = ''homepage.tsx''
   \<and> first_match (take 9 folderMappings) (normalizedPath ''src/app/homepage.tsx'') = None
   \<and> test (app_pattern ''page'') (normalizedPath ''src/app/homepage.tsx'')
   \<and> getDocumentationFolder ''src/app/homepage.tsx'' = ''pages''
   \<and> segments ''app/page.tsx'' = [''app'', ''page.tsx'']
   \<and> getDocumentationFolder ''app/page.tsx'' = ''general''
   \<and> segments (''src/app/a'' @ [char_of (10 :: nat)] @ ''b/page.tsx'')
       = [''src'', ''app'', ''a'' @ [char_of (10 :: nat)] @ ''b'', ''page.tsx'']
   \<and> getDocumentationFolder (''src/app/a'' @ [char_of (10 :: nat)] @ ''b/page.tsx'')
       = ''a'' @ [char_of (10 :: nat)] @ ''b''"
  by code_simp

section \<open>Casing of the category\<close>



subsection \<open>Over the wide alphabet\<close>

lemma split_w_not_Nil [simp]: "split_w sep s \<noteq> []"
  by (induction s) (auto split: list.splits)

lemma split_w_Cons:
  "split_w sep (u # us) =
     (if u = sep then [] # split_w sep us else (u # hd (split_w sep us)) # tl (split_w sep us))"
  by (cases "split_w sep us") (use split_w_not_Nil in auto)

declare split_w.simps(2) [simp del]
declare split_w_Cons [simp]









lemma wide_eq_iff [simp]: "wide s = wide t \<longleftrightarrow> s = t"
  by (simp add: wide_def inj_map_eq_map inj_def)

lemma wide_Nil_iff [simp]: "wide s = [] \<longleftrightarrow> s = []"
  by (simp add: wide_def)















section \<open>Batches\<close>

lemma document_loop_append:
  "document_loop env force results fps w =
     (case document_loop env force [] fps w of (rs, w') \<Rightarrow> (results @ rs, w'))"
proof (induction fps arbitrary: results w)
  case Nil
  then show ?case by simp
next
  case (Cons fp rest)
  obtain r w1 where d: "documentFile env fp force w = (r, w1)" by (cases "documentFile env fp force w")
  obtain rs w2 where l: "document_loop env force [] rest w1 = (rs, w2)"
    by (cases "document_loop env force [] rest w1")
  have "document_loop env force (results @ [result_of fp r]) rest w1 = ((results @ [result_of fp r]) @ rs, w2)"
    using Cons.IH [of "results @ [result_of fp r]" w1] l by simp
  moreover have "document_loop env force ([] @ [result_of fp r]) rest w1 = (([] @ [result_of fp r]) @ rs, w2)"
    using Cons.IH [of "[] @ [result_of fp r]" w1] l by simp
  ultimately show ?case using d by simp
qed

lemma documentMultipleFiles_Nil: "documentMultipleFiles env [] force w = ([], w)"
  by (simp add: documentMultipleFiles_def)

lemma documentMultipleFiles_Cons:
  "documentMultipleFiles env (fp # rest) force w =
     (case documentFile env fp force w of
        (r, w1) \<Rightarrow>
          (case documentMultipleFiles env rest force w1 of
             (rs, w2) \<Rightarrow> (result_of fp r # rs, w2)))"
proof -
  obtain r w1 where d: "documentFile env fp force w = (r, w1)" by (cases "documentFile env fp force w")
  show ?thesis
    unfolding documentMultipleFiles_def
    using document_loop_append [of env force "[result_of fp r]" rest w1] d by simp
qed

lemma documentMultipleFiles_append:
  "documentMultipleFiles env (xs @ ys) force w =
     (case documentMultipleFiles env xs force w of
        (rs1, w1) \<Rightarrow>
          (case documentMultipleFiles env ys force w1 of
             (rs2, w2) \<Rightarrow> (rs1 @ rs2, w2)))"
proof (induction xs arbitrary: w)
  case Nil
  then show ?case by (simp add: documentMultipleFiles_Nil)
next
  case (Cons x xs)
  then show ?case
    by (simp add: documentMultipleFiles_Cons split: prod.splits)
qed

lemma map_filePath_results:
  "map filePath (fst (documentMultipleFiles env fps force w)) = fps"
proof (induction fps arbitrary: w)
  case Nil
  then show ?case by (simp add: documentMultipleFiles_Nil)
next
  case (Cons fp rest)
  have "filePath (result_of fp r) = fp" for r
    by (auto simp: result_of_def split: sum.splits prod.splits)
  with Cons show ?case
    by (simp add: documentMultipleFiles_Cons split: prod.splits) (metis fst_conv)
qed

text \<open>
  Claim C8. For every list of input paths and every force flag, \<^verbatim>\<open>documentMultipleFiles\<close>
  returns exactly one result for each input, and the results are in the order of the
  inputs: the file paths of the results are the inputs.
\<close>

theorem one_result_per_input:
  "length (fst (documentMultipleFiles env filePaths force w)) = length filePaths
   \<and> map filePath (fst (documentMultipleFiles env filePaths force w)) = filePaths"
  using map_filePath_results [of env filePaths force w] by (metis length_map)

theorem one_result_per_input_witness:
  "length (fst (documentMultipleFiles example_env example_batch False example_world)) = 3
   \<and> map filePath (fst (documentMultipleFiles example_env example_batch False example_world))
       = [''src/utils/a.ts'', ''src/missing.ts'', ''src/hooks/useB.ts'']"
  using one_result_per_input [of example_env example_batch False example_world]
  by (simp add: example_batch_def)

lemma result_of_invariant:
  "(skipped (result_of fp r) \<longrightarrow> success (result_of fp r))
   \<and> (\<not> success (result_of fp r) \<longrightarrow> \<not> skipped (result_of fp r) \<and> error (result_of fp r) \<noteq> None)"
  by (auto simp: result_of_def split: sum.splits prod.splits)

lemma results_are_result_of:
  "r \<in> set (fst (documentMultipleFiles env fps force w)) \<Longrightarrow> \<exists>fp x. r = result_of fp x"
proof (induction fps arbitrary: w)
  case Nil
  then show ?case by (simp add: documentMultipleFiles_Nil)
next
  case (Cons fp rest)
  obtain x w1 where d: "documentFile env fp force w = (x, w1)" by (cases "documentFile env fp force w")
  obtain rs w2 where l: "documentMultipleFiles env rest force w1 = (rs, w2)"
    by (cases "documentMultipleFiles env rest force w1")
  from Cons.prems d l have "r = result_of fp x \<or> r \<in> set rs"
    by (simp add: documentMultipleFiles_Cons)
  then show ?case using Cons.IH [of w1] l by auto
qed

text \<open>
  Claim C10. In every result that \<^verbatim>\<open>documentMultipleFiles\<close> produces, \<^verbatim>\<open>skipped\<close> is true
  only if \<^verbatim>\<open>success\<close> is true, and a result with \<^verbatim>\<open>success\<close> false has \<^verbatim>\<open>skipped\<close> false
  and carries an error message: no result is a skip and a failure at once.
\<close>

theorem result_never_skip_and_failure:
  assumes "r \<in> set (fst (documentMultipleFiles env filePaths force w))"
  shows "(skipped r \<longrightarrow> success r) \<and> (\<not> success r \<longrightarrow> \<not> skipped r \<and> error r \<noteq> None)"
  using results_are_result_of [OF assms] result_of_invariant by blast

theorem result_never_skip_and_failure_witness:
  "missing_result \<in> set (fst (documentMultipleFiles example_env example_batch False example_world))
   \<and> \<not> success missing_result \<and> \<not> skipped missing_result \<and> error missing_result \<noteq> None"
proof -
  have 1: "missing_result \<in> set (fst (documentMultipleFiles example_env example_batch False example_world))"
    by code_simp
  have 2: "\<not> success missing_result" by (simp add: missing_result_def)
  show ?thesis using result_never_skip_and_failure [OF 1] 1 2 by blast
qed

text \<open>
  Claim C5. Whatever error the processing of one file of a batch raises (a missing
  input, a failure of the collaborator, a failure of the file system: every \<open>Inl\<close> of
  \<^verbatim>\<open>documentFile\<close>), the batch records for that file a failed result with the file path
  and the message of the error, and goes on: the results of the files after it are those
  of processing them from the world that the failed file left, one for each of them.
\<close>

theorem failure_is_recorded:
  assumes "documentMultipleFiles env before force w = (rs1, w1)"
    and "documentFile env fp force w1 = (Inl e, w2)"
    and "documentMultipleFiles env after force w2 = (rs2, w3)"
  shows "documentMultipleFiles env (before @ fp # after) force w =
           (rs1 @ \<lparr>filePath = fp, docPath = None, error = Some (message e),
                    success = False, skipped = False\<rparr> # rs2, w3)
         \<and> length rs2 = length after"
proof -
  have "length rs2 = length after"
    using map_filePath_results [of env after force w2] assms(3) by (metis fst_conv length_map)
  then show ?thesis
    using assms by (simp add: documentMultipleFiles_append documentMultipleFiles_Cons result_of_def)
qed

theorem failure_is_recorded_witness:
  "fst (documentFile example_env ''src/missing.ts'' False
          (snd (documentMultipleFiles example_env [''src/utils/a.ts''] False example_world)))
     = Inl (Error (''Fichier non trouv'' @ [char_of (233 :: nat)] @ '': src/missing.ts''))
   \<and> fst (documentMultipleFiles example_env
            ([''src/utils/a.ts''] @ ''src/missing.ts'' # [''src/hooks/useB.ts'']) False example_world)
       = fst (documentMultipleFiles example_env [''src/utils/a.ts''] False example_world)
         @ missing_result
         # fst (documentMultipleFiles example_env [''src/hooks/useB.ts''] False
                 (snd (documentFile example_env ''src/missing.ts'' False
                    (snd (documentMultipleFiles example_env [''src/utils/a.ts''] False example_world)))))
   \<and> length (fst (documentMultipleFiles example_env [''src/hooks/useB.ts''] False
                 (snd (documentFile example_env ''src/missing.ts'' False
                    (snd (documentMultipleFiles example_env [''src/utils/a.ts''] False example_world))))))
       = 1"
proof -
  let ?X = "documentMultipleFiles example_env [''src/utils/a.ts''] False example_world"
  let ?D = "documentFile example_env ''src/missing.ts'' False (snd ?X)"
  let ?Y = "documentMultipleFiles example_env [''src/hooks/useB.ts''] False (snd ?D)"
  let ?e = "Error (''Fichier non trouv'' @ [char_of (233 :: nat)] @ '': src/missing.ts'')"
  have 0: "fst ?D = Inl ?e" by code_simp
  have 1: "?X = (fst ?X, snd ?X)" by simp
  have 2: "?D = (Inl ?e, snd ?D)" using 0 by (metis prod.collapse)
  have 3: "?Y = (fst ?Y, snd ?Y)" by simp
  show ?thesis using failure_is_recorded [OF 1 2 3] 0 by (simp add: missing_result_def)
qed



section \<open>Skipping what is already documented\<close>

lemma grows_refl: "grows w w"
  by (simp add: grows_def)

lemma grows_trans: "grows w1 w2 \<Longrightarrow> grows w2 w3 \<Longrightarrow> grows w1 w3"
  by (simp add: grows_def)

lemma grows_existsSync: "grows w w' \<Longrightarrow> existsSync env w p \<Longrightarrow> existsSync env w' p"
  by (auto simp: grows_def existsSync_def)

lemma grows_already_documented:
  "grows w w' \<Longrightarrow> already_documented env w fp \<Longrightarrow> already_documented env w' fp"
  by (simp add: already_documented_def grows_existsSync)

lemma mkdirSync_grows: "mkdirSync env w p = (r, w') \<Longrightarrow> grows w w'"
  by (auto simp: mkdirSync_def Let_def log_event_def grows_def split: option.splits if_splits)

lemma mkdirSync_creates: "mkdirSync env w p = (Inr u, w') \<Longrightarrow> existsSync env w' p"
  by (auto simp: mkdirSync_def Let_def log_event_def existsSync_def split: option.splits if_splits)

lemma readFileSync_grows: "readFileSync env w p = (r, w') \<Longrightarrow> grows w w'"
  by (auto simp: readFileSync_def log_event_def grows_def split: option.splits if_splits)

lemma callClaude_grows: "callClaude w c p = (r, w') \<Longrightarrow> grows w w'"
  by (auto simp: callClaude_def log_event_def grows_def)

lemma writeFileSync_grows: "writeFileSync env w p d = (r, w') \<Longrightarrow> grows w w'"
  by (auto simp: writeFileSync_def log_event_def grows_def split: option.splits if_splits)

lemma writeFileSync_creates: "writeFileSync env w p d = (Inr u, w') \<Longrightarrow> existsSync env w' p"
  by (auto simp: writeFileSync_def log_event_def existsSync_def split: option.splits if_splits)

text \<open>The steps of one call of documentFile, read off its definition.\<close>

lemma documentFile_cases:
  assumes "documentFile env fp force w = (r, w')"
  obtains (missing) "\<not> existsSync env w fp" "w' = w" "\<exists>e. r = Inl e"
  | (mkdir_failed) e where "existsSync env w fp" "\<not> existsSync env w (docsDir env fp)"
      "mkdirSync env w (docsDir env fp) = (Inl e, w')" "r = Inl e"
  | (skip) w1 where "existsSync env w fp"
      "(if \<not> existsSync env w (docsDir env fp) then mkdirSync env w (docsDir env fp) else (Inr (), w)) = (Inr (), w1)"
      "\<not> force" "existsSync env w1 (docPath_of env fp)" "w' = w1" "r = Inr (docPath_of env fp, True)"
  | (read_failed) w1 e where "existsSync env w fp"
      "(if \<not> existsSync env w (docsDir env fp) then mkdirSync env w (docsDir env fp) else (Inr (), w)) = (Inr (), w1)"
      "readFileSync env w1 fp = (Inl e, w')" "r = Inl e"
  | (call_failed) w1 w2 c e where "existsSync env w fp"
      "(if \<not> existsSync env w (docsDir env fp) then mkdirSync env w (docsDir env fp) else (Inr (), w)) = (Inr (), w1)"
      "readFileSync env w1 fp = (Inr c, w2)" "callClaude w2 c fp = (Inl e, w')" "r = Inl e"
  | (write_failed) w1 w2 w3 c d e where "existsSync env w fp"
      "(if \<not> existsSync env w (docsDir env fp) then mkdirSync env w (docsDir env fp) else (Inr (), w)) = (Inr (), w1)"
      "readFileSync env w1 fp = (Inr c, w2)" "callClaude w2 c fp = (Inr d, w3)"
      "writeFileSync env w3 (docPath_of env fp) d = (Inl e, w')" "r = Inl e"
  | (generated) w1 w2 w3 c d where "existsSync env w fp"
      "(if \<not> existsSync env w (docsDir env fp) then mkdirSync env w (docsDir env fp) else (Inr (), w)) = (Inr (), w1)"
      "readFileSync env w1 fp = (Inr c, w2)" "callClaude w2 c fp = (Inr d, w3)"
      "writeFileSync env w3 (docPath_of env fp) d = (Inr (), w')" "r = Inr (docPath_of env fp, False)"
  using assms unfolding documentFile_def
  by (auto split: if_splits prod.splits sum.splits)

lemma ensure_dir_grows:
  "(if \<not> existsSync env w d then mkdirSync env w d else (Inr (), w)) = (r, w1) \<Longrightarrow> grows w w1"
  by (auto split: if_splits simp: grows_refl mkdirSync_grows)

lemma ensure_dir_exists:
  "(if \<not> existsSync env w d then mkdirSync env w d else (Inr (), w)) = (Inr (), w1) \<Longrightarrow> existsSync env w1 d"
  by (auto split: if_splits simp: mkdirSync_creates)

lemma documentFile_grows:
  assumes "documentFile env fp force w = (r, w')"
  shows "grows w w'"
  using assms
proof (cases rule: documentFile_cases)
  case missing
  then show ?thesis by (simp add: grows_refl)
next
  case (mkdir_failed e)
  then show ?thesis using mkdirSync_grows by blast
next
  case (skip w1)
  have "grows w w1" using skip(2) by (rule ensure_dir_grows)
  then show ?thesis using skip by simp
next
  case (read_failed w1 e)
  have "grows w w1" using read_failed(2) by (rule ensure_dir_grows)
  moreover have "grows w1 w'" using read_failed(3) by (rule readFileSync_grows)
  ultimately show ?thesis by (rule grows_trans)
next
  case (call_failed w1 w2 c e)
  have "grows w w1" using call_failed(2) by (rule ensure_dir_grows)
  moreover have "grows w1 w2" using call_failed(3) by (rule readFileSync_grows)
  moreover have "grows w2 w'" using call_failed(4) by (rule callClaude_grows)
  ultimately show ?thesis using grows_trans by blast
next
  case (write_failed w1 w2 w3 c d e)
  have "grows w w1" using write_failed(2) by (rule ensure_dir_grows)
  moreover have "grows w1 w2" using write_failed(3) by (rule readFileSync_grows)
  moreover have "grows w2 w3" using write_failed(4) by (rule callClaude_grows)
  moreover have "grows w3 w'" using write_failed(5) by (rule writeFileSync_grows)
  ultimately show ?thesis using grows_trans by blast
next
  case (generated w1 w2 w3 c d)
  have "grows w w1" using generated(2) by (rule ensure_dir_grows)
  moreover have "grows w1 w2" using generated(3) by (rule readFileSync_grows)
  moreover have "grows w2 w3" using generated(4) by (rule callClaude_grows)
  moreover have "grows w3 w'" using generated(5) by (rule writeFileSync_grows)
  ultimately show ?thesis using grows_trans by blast
qed

lemma documentFile_success:
  assumes "documentFile env fp force w = (Inr x, w')"
  shows "already_documented env w' fp"
  using assms
proof (cases rule: documentFile_cases)
  case (skip w1)
  have "grows w w1" using skip(2) by (rule ensure_dir_grows)
  then have "existsSync env w1 fp" using skip(1) by (rule grows_existsSync)
  moreover have "existsSync env w1 (docsDir env fp)" using skip(2) by (rule ensure_dir_exists)
  ultimately show ?thesis using skip by (simp add: already_documented_def)
next
  case (generated w1 w2 w3 c d)
  have "grows w1 w2" using generated(3) by (rule readFileSync_grows)
  moreover have "grows w2 w3" using generated(4) by (rule callClaude_grows)
  moreover have "grows w3 w'" using generated(5) by (rule writeFileSync_grows)
  ultimately have g: "grows w1 w'" using grows_trans by blast
  have "grows w w1" using generated(2) by (rule ensure_dir_grows)
  then have "existsSync env w1 fp" using generated(1) by (rule grows_existsSync)
  moreover have "existsSync env w1 (docsDir env fp)" using generated(2) by (rule ensure_dir_exists)
  moreover have "existsSync env w' (docPath_of env fp)" using generated(5) by (rule writeFileSync_creates)
  ultimately show ?thesis using g by (simp add: already_documented_def grows_existsSync)
qed simp_all

lemma documentFile_skips:
  "already_documented env w fp \<Longrightarrow> documentFile env fp False w = (Inr (docPath_of env fp, True), w)"
  by (simp add: already_documented_def documentFile_def)

lemma documentMultipleFiles_grows:
  "documentMultipleFiles env fps force w = (rs, w') \<Longrightarrow> grows w w'"
proof (induction fps arbitrary: w rs w')
  case Nil
  then show ?case by (simp add: documentMultipleFiles_Nil grows_refl)
next
  case (Cons fp rest)
  obtain x w1 where d: "documentFile env fp force w = (x, w1)" by (cases "documentFile env fp force w")
  obtain rs' w2 where l: "documentMultipleFiles env rest force w1 = (rs', w2)"
    by (cases "documentMultipleFiles env rest force w1")
  from Cons.prems d l have "w' = w2" by (simp add: documentMultipleFiles_Cons)
  then have "grows w1 w'" using Cons.IH [of w1 rs' w2] l by simp
  then show ?case using documentFile_grows [OF d] grows_trans by blast
qed

lemma success_result_of: "success (result_of fp x) \<Longrightarrow> \<exists>y. x = Inr y"
  by (cases x) (simp_all add: result_of_def)

lemma all_success_documented:
  "documentMultipleFiles env fps force w = (rs, w') \<Longrightarrow> \<forall>r\<in>set rs. success r
   \<Longrightarrow> \<forall>fp\<in>set fps. already_documented env w' fp"
proof (induction fps arbitrary: w rs w')
  case Nil
  then show ?case by simp
next
  case (Cons fp rest)
  obtain x w1 where d: "documentFile env fp force w = (x, w1)" by (cases "documentFile env fp force w")
  obtain rs' w2 where l: "documentMultipleFiles env rest force w1 = (rs', w2)"
    by (cases "documentMultipleFiles env rest force w1")
  from Cons.prems(1) d l have eq: "rs = result_of fp x # rs'" "w' = w2"
    by (simp_all add: documentMultipleFiles_Cons)
  with Cons.prems(2) have "success (result_of fp x)" by simp
  then obtain y where "x = Inr y" using success_result_of by blast
  with d have "already_documented env w1 fp" using documentFile_success by blast
  moreover have "grows w1 w'" using l eq(2) documentMultipleFiles_grows by blast
  ultimately have "already_documented env w' fp"
    using grows_already_documented by blast
  moreover have "\<forall>fp\<in>set rest. already_documented env w' fp"
    using Cons.IH [of w1 rs' w'] l Cons.prems(2) eq by simp
  ultimately show ?case by simp
qed

lemma all_documented_skip:
  "\<forall>fp\<in>set fps. already_documented env w fp
   \<Longrightarrow> documentMultipleFiles env fps False w = (map (skip_result env) fps, w)"
proof (induction fps)
  case Nil
  then show ?case by (simp add: documentMultipleFiles_Nil)
next
  case (Cons fp rest)
  then show ?case
    by (simp add: documentMultipleFiles_Cons documentFile_skips result_of_def skip_result_def)
qed

text \<open>
  Claim C4, as amended. First: with \<^verbatim>\<open>force\<close> false, when the input file exists and its
  output file exists (in its directory), \<^verbatim>\<open>documentFile\<close> returns a skip result with the
  output path and leaves the world as it is: the trace is the same, so there was no
  read of the source file, no call of the collaborator and no write. Second: when a run
  with \<^verbatim>\<open>force\<close> false reported no failure, a second run on the same inputs from the
  world the first one left gives a skip result for every file and changes nothing.
  The counterexample shows what the two added conditions exclude: an output whose
  source file is gone gives a failure, and a file whose generation failed in the first
  run is generated, with a write, in the second.
\<close>

theorem skip_existing_idempotent:
  "(existsSync env w fp \<and> existsSync env w (docsDir env fp) \<and> existsSync env w (docPath_of env fp)
      \<longrightarrow> documentFile env fp False w = (Inr (docPath_of env fp, True), w))
   \<and> (documentMultipleFiles env filePaths False w0 = (results, w1) \<and> (\<forall>r\<in>set results. success r)
      \<longrightarrow> documentMultipleFiles env filePaths False w1 = (map (skip_result env) filePaths, w1))"
proof (intro conjI impI)
  assume "existsSync env w fp \<and> existsSync env w (docsDir env fp) \<and> existsSync env w (docPath_of env fp)"
  then show "documentFile env fp False w = (Inr (docPath_of env fp, True), w)"
    using documentFile_skips by (simp add: already_documented_def)
next
  assume "documentMultipleFiles env filePaths False w0 = (results, w1) \<and> (\<forall>r\<in>set results. success r)"
  then have "\<forall>fp\<in>set filePaths. already_documented env w1 fp"
    using all_success_documented by blast
  then show "documentMultipleFiles env filePaths False w1 = (map (skip_result env) filePaths, w1)"
    by (rule all_documented_skip)
qed

theorem skip_existing_idempotent_counterexample:
  "existsSync example_env stale_world (docPath_of example_env ''src/utils/a.ts'')
   \<and> fst (documentFile example_env ''src/utils/a.ts'' False stale_world)
       = Inl (Error (''Fichier non trouv'' @ [char_of (233 :: nat)] @ '': src/utils/a.ts''))
   \<and> fst (documentMultipleFiles example_env [''src/utils/a.ts''] False flaky_world)
       = [\<lparr>filePath = ''src/utils/a.ts'', docPath = None,
           error = Some ''Erreur API: 529 Overloaded'', success = False, skipped = False\<rparr>]
   \<and> fst (documentMultipleFiles example_env [''src/utils/a.ts''] False
             (snd (documentMultipleFiles example_env [''src/utils/a.ts''] False flaky_world)))
       = [\<lparr>filePath = ''src/utils/a.ts'', docPath = Some ''/repo/docs/utils/a.md'',
           error = None, success = True, skipped = False\<rparr>]
   \<and> last (trace (snd (documentMultipleFiles example_env [''src/utils/a.ts''] False
             (snd (documentMultipleFiles example_env [''src/utils/a.ts''] False flaky_world)))))
       = WriteFileSync ''/repo/docs/utils/a.md'' ''# src/utils/a.ts''"
  by code_simp

theorem skip_existing_idempotent_witness:
  "list_all success (fst (documentMultipleFiles example_env example_files False example_world))
   \<and> existsSync example_env after_first_run ''src/utils/a.ts''
   \<and> documentFile example_env ''src/utils/a.ts'' False after_first_run
       = (Inr (docPath_of example_env ''src/utils/a.ts'', True), after_first_run)
   \<and> documentMultipleFiles example_env example_files False after_first_run
       = (map (skip_result example_env) example_files, after_first_run)"
proof -
  have 1: "\<forall>r\<in>set (fst (documentMultipleFiles example_env example_files False example_world)). success r"
    by code_simp
  have 2: "existsSync example_env after_first_run ''src/utils/a.ts''
     \<and> existsSync example_env after_first_run (docsDir example_env ''src/utils/a.ts'')
     \<and> existsSync example_env after_first_run (docPath_of example_env ''src/utils/a.ts'')"
    by code_simp
  have 3: "documentMultipleFiles example_env example_files False example_world
      = (fst (documentMultipleFiles example_env example_files False example_world), after_first_run)"
    by (simp add: after_first_run_def)
  show ?thesis
    using skip_existing_idempotent [where env = example_env and w = after_first_run
        and fp = "''src/utils/a.ts''" and filePaths = example_files and ?w0.0 = example_world
        and results = "fst (documentMultipleFiles example_env example_files False example_world)"
        and ?w1.0 = after_first_run]
      1 2 3 unfolding list_all_iff by blast
qed


section \<open>The statistics of the index\<close>

lemma foldl_add_sum_list:
  "foldl (\<lambda>sum x. sum + f x) a xs = a + sum_list (map f xs)" for f :: "'a \<Rightarrow> nat"
  by (induction xs arbitrary: a) simp_all

lemma sum_list_insort_key:
  "sum_list (map f (insort_key k x xs)) = f x + sum_list (map f xs)" for f :: "'a \<Rightarrow> nat"
  by (induction xs) simp_all

lemma sum_list_sort_key:
  "sum_list (map f (sort_key k xs)) = sum_list (map f xs)" for f :: "'a \<Rightarrow> nat"
  by (induction xs) (simp_all add: sum_list_insort_key)

lemma length_concat_if:
  "length (concat (map (\<lambda>x. if P x then [g x] else []) xs)) = length (filter P xs)"
  by (induction xs) simp_all

lemma length_filter_insort_key:
  "length (filter P (insort_key k x xs)) = (if P x then 1 else 0) + length (filter P xs)"
  by (induction xs) simp_all

lemma length_filter_sort_key:
  "length (filter P (sort_key k xs)) = length (filter P xs)"
  by (induction xs) (simp_all add: length_filter_insort_key)

lemma sort_key_Nil_iff: "sort_key k xs = [] \<longleftrightarrow> xs = []"
  by (metis length_sort length_0_conv)

text \<open>
  Claim C3, as amended. For every tree under \<^verbatim>\<open>docs\<close>, the statistics of the index report
  the total number of markdown files (entries whose name ends with \<^verbatim>\<open>.md\<close>) over all
  category directories, and the number of all category directories, those without a
  markdown file included: it is the number of non-empty categories, which is the number
  of sections, plus the number of category directories without a markdown file.
\<close>

theorem index_statistics:
  assumes "generateDocumentationIndex (Some dirents) = Some index"
  shows "totalFiles index = sum_list (map (\<lambda>dirent. length (markdown_files (snd dirent))) (directories dirents))
    \<and> categoriesCount index = length (directories dirents)
    \<and> length (sections index) = length (filter (\<lambda>dirent. markdown_files (snd dirent) \<noteq> []) (directories dirents))
    \<and> categoriesCount index = length (sections index)
         + length (filter (\<lambda>dirent. markdown_files (snd dirent) = []) (directories dirents))"
proof -
  let ?cats = "sort_key fst (directories dirents)"
  let ?nonempty = "\<lambda>dirent :: string \<times> entry. markdown_files (snd dirent) \<noteq> []"
  from assms have "totalFiles index =
      foldl (\<lambda>sum category. sum + length (markdown_files (snd category))) 0 ?cats"
    by (auto simp: generateDocumentationIndex_def directories_def Let_def)
  then have total: "totalFiles index =
      sum_list (map (\<lambda>dirent. length (markdown_files (snd dirent))) (directories dirents))"
    by (simp add: foldl_add_sum_list sum_list_sort_key)
  from assms have count: "categoriesCount index = length (directories dirents)"
    by (auto simp: generateDocumentationIndex_def directories_def Let_def)
  from assms have "sections index = concat (map (\<lambda>category.
            if ?nonempty category
            then [(fst category, sort (markdown_files (snd category)))] else []) ?cats)"
    by (auto simp: generateDocumentationIndex_def directories_def Let_def sort_key_Nil_iff)
  then have "length (sections index) = length (filter ?nonempty ?cats)"
    by (simp only: length_concat_if)
  then have secs: "length (sections index) = length (filter ?nonempty (directories dirents))"
    by (simp only: length_filter_sort_key)
  have "length (directories dirents) = length (filter ?nonempty (directories dirents))
      + length (filter (\<lambda>dirent. \<not> ?nonempty dirent) (directories dirents))"
    by (rule sum_length_filter_compl [symmetric])
  with total count secs show ?thesis by simp
qed

theorem index_statistics_counterexample:
  "generateDocumentationIndex (Some example_docs)
     = Some \<lparr>sections = [(''api'', [''users.md'']), (''utils'', [''a.md'', ''b.md''])],
             totalFiles = 3, categoriesCount = 3\<rparr>
   \<and> length (filter (\<lambda>dirent. markdown_files (snd dirent) \<noteq> []) (directories example_docs)) = 2"
  by code_simp

theorem index_statistics_witness:
  "generateDocumentationIndex (Some example_docs)
     = Some \<lparr>sections = [(''api'', [''users.md'']), (''utils'', [''a.md'', ''b.md''])],
             totalFiles = 3, categoriesCount = 3\<rparr>
   \<and> sum_list (map (\<lambda>dirent. length (markdown_files (snd dirent))) (directories example_docs)) = 3
   \<and> length (directories example_docs) = 3
   \<and> length (filter (\<lambda>dirent. markdown_files (snd dirent) = []) (directories example_docs)) = 1"
proof -
  have 1: "generateDocumentationIndex (Some example_docs)
     = Some \<lparr>sections = [(''api'', [''users.md'']), (''utils'', [''a.md'', ''b.md''])],
             totalFiles = 3, categoriesCount = 3\<rparr>"
    by code_simp
  show ?thesis using index_statistics [OF 1] 1 by simp
qed

end
